theory Spec2Isabelle
  imports Main "HOL-Library.AList"
begin

section \<open>Strings and the \<open>unicode\<close> package\<close>

text \<open>
  A Go string is modelled by the sequence of runes (code points) that \<open>range\<close> yields
  from it; a rune is a natural number. \<open>str\<close> reads an ASCII literal as such a sequence.
\<close>

type_synonym rune = nat

definition str :: "string \<Rightarrow> rune list" where
  "str s = map of_char s"

text \<open>
  The functions of Go's \<open>unicode\<close> package answer from a built-in array for the
  code points up to \<open>MaxLatin1\<close> (from a comparison up to \<open>MaxASCII\<close> for the case
  mappings) and from the range tables of the Unicode database above. The built-in part
  is written out; the range tables are a parameter of the model.
\<close>

record unicode_tables =
  Upper :: "rune \<Rightarrow> bool"
  Title :: "rune \<Rightarrow> bool"
  Letter :: "rune \<Rightarrow> bool"
  Number :: "rune \<Rightarrow> bool"
  White_Space :: "rune \<Rightarrow> bool"
  LowerCase :: "rune \<Rightarrow> rune"
  TitleCase :: "rune \<Rightarrow> rune"

definition MaxASCII :: rune where
  "MaxASCII = 127"

definition MaxLatin1 :: rune where
  "MaxLatin1 = 255"

definition pLu :: "rune \<Rightarrow> bool" where
  "pLu r = ((65 \<le> r \<and> r \<le> 90) \<or> (192 \<le> r \<and> r \<le> 214) \<or> (216 \<le> r \<and> r \<le> 222))"

definition pLl :: "rune \<Rightarrow> bool" where
  "pLl r = ((97 \<le> r \<and> r \<le> 122) \<or> r = 181 \<or> (223 \<le> r \<and> r \<le> 246) \<or> (248 \<le> r \<and> r \<le> 255))"

definition pLo :: "rune \<Rightarrow> bool" where
  "pLo r = (r = 170 \<or> r = 186)"

definition pN :: "rune \<Rightarrow> bool" where
  "pN r = ((48 \<le> r \<and> r \<le> 57) \<or> r = 178 \<or> r = 179 \<or> r = 185 \<or> (188 \<le> r \<and> r \<le> 190))"

definition IsUpper :: "unicode_tables \<Rightarrow> rune \<Rightarrow> bool" where
  "IsUpper U r = (if r \<le> MaxLatin1 then pLu r else Upper U r)"

definition IsTitle :: "unicode_tables \<Rightarrow> rune \<Rightarrow> bool" where
  "IsTitle U r = (if r \<le> MaxLatin1 then False else Title U r)"

definition IsLetter :: "unicode_tables \<Rightarrow> rune \<Rightarrow> bool" where
  "IsLetter U r = (if r \<le> MaxLatin1 then pLu r \<or> pLl r \<or> pLo r else Letter U r)"

definition IsNumber :: "unicode_tables \<Rightarrow> rune \<Rightarrow> bool" where
  "IsNumber U r = (if r \<le> MaxLatin1 then pN r else Number U r)"

definition IsSpace :: "unicode_tables \<Rightarrow> rune \<Rightarrow> bool" where
  "IsSpace U r =
     (if r \<le> MaxLatin1
      then r = 9 \<or> r = 10 \<or> r = 11 \<or> r = 12 \<or> r = 13 \<or> r = 32 \<or> r = 133 \<or> r = 160
      else White_Space U r)"

definition ToLower :: "unicode_tables \<Rightarrow> rune \<Rightarrow> rune" where
  "ToLower U r =
     (if r \<le> MaxASCII then (if 65 \<le> r \<and> r \<le> 90 then r + 32 else r)
      else LowerCase U r)"

definition ToTitle :: "unicode_tables \<Rightarrow> rune \<Rightarrow> rune" where
  "ToTitle U r =
     (if r \<le> MaxASCII then (if 97 \<le> r \<and> r \<le> 122 then r - 32 else r)
      else TitleCase U r)"

text \<open>
  \<open>strings.TrimSpace\<close> drops the leading and the trailing runes that \<open>unicode.IsSpace\<close>
  accepts; \<open>strings.Join\<close> and \<open>strings.Split\<close> (here with a separator of one rune)
  are as in the package \<open>strings\<close>.
\<close>

definition TrimSpace :: "unicode_tables \<Rightarrow> rune list \<Rightarrow> rune list" where
  "TrimSpace U s = rev (dropWhile (IsSpace U) (rev (dropWhile (IsSpace U) s)))"

fun Join :: "rune list list \<Rightarrow> rune list \<Rightarrow> rune list" where
  "Join [] sep = []"
| "Join [e] sep = e"
| "Join (e # es) sep = e @ sep @ Join es sep"

fun Split :: "rune list \<Rightarrow> rune \<Rightarrow> rune list list" where
  "Split [] sep = [[]]"
| "Split (c # cs) sep =
     (if c = sep then [] # Split cs sep
      else (case Split cs sep of e # es \<Rightarrow> (c # e) # es | [] \<Rightarrow> [[c]]))"

section \<open>identifier.go\<close>

record Identifier =
  Camel :: "rune list"
  Kebab :: "rune list"
  Natural :: "rune list"
  Package :: "rune list"
  Pascal :: "rune list"
  Snake :: "rune list"
  Source :: "rune list"

record parser =
  word :: "rune list"
  words :: "rune list list"

definition shift :: "parser \<Rightarrow> parser" where
  "shift p = (if length (word p) > 0 then p\<lparr>words := words p @ [word p], word := []\<rparr> else p)"

definition write_rune :: "parser \<Rightarrow> rune \<Rightarrow> parser" where
  "write_rune p r = p\<lparr>word := word p @ [r]\<rparr>"

definition isUpper :: "unicode_tables \<Rightarrow> rune \<Rightarrow> bool" where
  "isUpper U r = (IsUpper U r \<or> IsTitle U r)"

definition isLower :: "unicode_tables \<Rightarrow> rune \<Rightarrow> bool" where
  "isLower U r = (IsLetter U r \<or> IsNumber U r)"

text \<open>One iteration of the loop of \<open>parse\<close>, on the rune \<open>r\<close>.\<close>

definition parse_step :: "unicode_tables \<Rightarrow> parser \<Rightarrow> rune \<Rightarrow> parser" where
  "parse_step U p r =
     (let (r', p') = (if isUpper U r then (ToLower U r, shift p) else (r, p))
      in if isLower U r' then write_rune p' r' else shift p')"

definition parse :: "unicode_tables \<Rightarrow> rune list \<Rightarrow> rune list list" where
  "parse U s =
     (let s' = TrimSpace U s
      in if length s' = 0 then []
         else words (shift (foldl (parse_step U) \<lparr>word = [], words = []\<rparr> s')))"

definition title :: "unicode_tables \<Rightarrow> rune list \<Rightarrow> rune list" where
  "title U s = (case s of [] \<Rightarrow> [] | r # rs \<Rightarrow> ToTitle U r # rs)"

definition camel :: "unicode_tables \<Rightarrow> rune list list \<Rightarrow> rune list" where
  "camel U ws = (case ws of [] \<Rightarrow> [] | w # rest \<Rightarrow> w @ concat (map (title U) rest))"

definition kebab :: "rune list list \<Rightarrow> rune list" where
  "kebab ws = Join ws (str ''-'')"

definition natural :: "rune list list \<Rightarrow> rune list" where
  "natural ws = Join ws (str '' '')"

definition packge :: "rune list list \<Rightarrow> rune list" where
  "packge ws = Join ws []"

definition pascal :: "unicode_tables \<Rightarrow> rune list list \<Rightarrow> rune list" where
  "pascal U ws = (if length ws = 0 then [] else concat (map (title U) ws))"

definition snake :: "rune list list \<Rightarrow> rune list" where
  "snake ws = Join ws (str ''_'')"

definition NewIdentifier :: "unicode_tables \<Rightarrow> rune list \<Rightarrow> Identifier" where
  "NewIdentifier U s =
     (let ws = parse U s
      in \<lparr>Camel = camel U ws, Kebab = kebab ws, Natural = natural ws, Package = packge ws,
          Pascal = pascal U ws, Snake = snake ws, Source = s\<rparr>)"

section \<open>imports.go\<close>

text \<open>
  The map \<open>Imports\<close> is an association list with distinct keys; a new binding is put
  at its end. The regular expression \<open>[^[:digit:][:alpha:]_]\<close> matches one rune; its
  classes are the ASCII ones.
\<close>

type_synonym Imports = "(rune list \<times> rune list) list"

definition invalidIdentifierChar :: "rune \<Rightarrow> bool" where
  "invalidIdentifierChar r =
     (\<not> ((48 \<le> r \<and> r \<le> 57) \<or> (65 \<le> r \<and> r \<le> 90) \<or> (97 \<le> r \<and> r \<le> 122) \<or> r = 95))"

definition go_keywords :: "rune list list" where
  "go_keywords = map str
     [''break'', ''case'', ''chan'', ''const'', ''continue'', ''default'', ''defer'', ''else'',
      ''fallthrough'', ''for'', ''func'', ''go'', ''goto'', ''if'', ''import'', ''interface'',
      ''map'', ''package'', ''range'', ''return'', ''select'', ''struct'', ''switch'', ''type'',
      ''var'']"

definition isKeyword :: "rune list \<Rightarrow> bool" where
  "isKeyword s = (s \<in> set go_keywords)"

definition newAlias :: "rune list list \<Rightarrow> rune list" where
  "newAlias elems = filter (\<lambda>r. \<not> invalidIdentifierChar r) (Join elems [])"

definition isValid :: "unicode_tables \<Rightarrow> Imports \<Rightarrow> rune list \<Rightarrow> bool" where
  "isValid U imp alias =
     (if length alias = 0 \<or> isKeyword alias then False
      else if (case alias of r # _ \<Rightarrow> \<not> IsLetter U r | [] \<Rightarrow> False) then False
      else list_all (\<lambda>(k, s). s \<noteq> alias) imp)"

text \<open>
  The first loop of \<open>Add\<close>, from the counter \<open>i\<close> on: the alias it stops at, and
  whether that alias was found valid.
\<close>

function tryElems ::
  "unicode_tables \<Rightarrow> Imports \<Rightarrow> rune list list \<Rightarrow> nat \<Rightarrow> rune list \<Rightarrow> bool \<times> rune list" where
  "tryElems U imp elems i alias =
     (if i \<le> length elems
      then (let alias' = newAlias (drop (length elems - i) elems)
            in if isValid U imp alias' then (True, alias')
               else tryElems U imp elems (i + 1) alias')
      else (False, alias))"
  by pat_completeness auto
termination
  by (relation "measure (\<lambda>(U, imp, elems, i, alias). Suc (length elems) - i)") auto

declare tryElems.simps [simp del]

text \<open>The second loop of \<open>Add\<close>: prepend \<open>x\<close> (the rune 120) until the alias is valid.\<close>

function xloop :: "unicode_tables \<Rightarrow> Imports \<Rightarrow> rune list \<Rightarrow> rune list" where
  "xloop U imp alias = (if \<not> isValid U imp alias then xloop U imp (120 # alias) else alias)"
  by pat_completeness auto
termination
proof (relation "measure (\<lambda>(U, imp, alias).
    let L = sum_list (map (length \<circ> snd) imp)
    in case alias of [] \<Rightarrow> L + 2 | r # _ \<Rightarrow> if r = 120 then L + 1 - length alias else L + 2)")
  show "wf (measure (\<lambda>(U, imp, alias).
    let L = sum_list (map (length \<circ> snd) imp)
    in case alias of [] \<Rightarrow> L + 2 | r # _ \<Rightarrow> if r = 120 then L + 1 - length alias else L + 2))"
    by simp
next
  fix U :: unicode_tables and imp :: Imports and a :: "rune list"
  assume bad: "\<not> isValid U imp a"
  have total: "b \<in> snd ` set imp \<Longrightarrow> length b \<le> sum_list (map (length \<circ> snd) imp)" for b
    by (induction imp) force+
  have x_free: "isValid U imp (120 # b) = (120 # b \<notin> snd ` set imp)" for b
    by (force simp add: isValid_def isKeyword_def go_keywords_def str_def IsLetter_def
        MaxLatin1_def pLl_def list_all_iff)
  show "((U, imp, 120 # a), (U, imp, a)) \<in> measure (\<lambda>(U, imp, alias).
    let L = sum_list (map (length \<circ> snd) imp)
    in case alias of [] \<Rightarrow> L + 2 | r # _ \<Rightarrow> if r = 120 then L + 1 - length alias else L + 2)"
  proof (cases a)
    case Nil
    then show ?thesis by simp
  next
    case (Cons r rs)
    show ?thesis
    proof (cases "r = 120")
      case True
      with bad Cons have "a \<in> snd ` set imp" by (simp add: x_free)
      then have "length a \<le> sum_list (map (length \<circ> snd) imp)" by (rule total)
      with Cons True show ?thesis by (simp add: Let_def)
    next
      case False
      with Cons show ?thesis by (simp add: Let_def)
    qed
  qed
qed

declare xloop.simps [simp del]

text \<open>\<open>Add\<close> returns the table as it leaves it and the alias.\<close>

definition Add :: "unicode_tables \<Rightarrow> Imports \<Rightarrow> rune list \<Rightarrow> Imports \<times> rune list" where
  "Add U imp path =
     (if path = [] \<or> path = str ''.'' \<or> path = str ''/'' then (imp, [])
      else case map_of imp path of
             Some alias \<Rightarrow> (imp, alias)
           | None \<Rightarrow>
               (let elems = Split path 47;
                    (found, alias) = tryElems U imp elems 1 []
                in if found then (AList.update path alias imp, alias)
                   else (let alias' = xloop U imp alias
                         in (AList.update path alias' imp, alias'))))"

text \<open>A sequence of calls of \<open>Add\<close>: the final table and the aliases returned, in order.\<close>

fun AddAll :: "unicode_tables \<Rightarrow> Imports \<Rightarrow> rune list list \<Rightarrow> Imports \<times> rune list list" where
  "AddAll U imp [] = (imp, [])"
| "AddAll U imp (k # ks) =
     (let (imp', a) = Add U imp k; (imp'', as) = AddAll U imp' ks in (imp'', a # as))"

section \<open>An excerpt of the Unicode tables\<close>

text \<open>
  The entries of the range tables for a few code points above Latin-1, for the examples:
  U+2102 (double-struck capital C) is an upper-case letter without a lower-case mapping,
  U+01C5 is a title-case letter whose lower case is U+01C6, U+2160 (roman numeral one) is
  a number whose lower case is U+2170, U+2003 (em space) is white space. The Latin-1
  letters have their case mappings. Every other code point is left without properties.
\<close>

definition unicode_excerpt :: unicode_tables where
  "unicode_excerpt =
     \<lparr>Upper = (\<lambda>r. r = 8450),
      Title = (\<lambda>r. r = 453),
      Letter = (\<lambda>r. r = 8450 \<or> r = 453 \<or> r = 454),
      Number = (\<lambda>r. r = 8544 \<or> r = 8560),
      White_Space = (\<lambda>r. r = 8195),
      LowerCase = (\<lambda>r. if (192 \<le> r \<and> r \<le> 214) \<or> (216 \<le> r \<and> r \<le> 222) then r + 32
                       else if r = 453 then 454 else if r = 8544 then 8560 else r),
      TitleCase = (\<lambda>r. if (224 \<le> r \<and> r \<le> 246) \<or> (248 \<le> r \<and> r \<le> 254) then r - 32
                       else if r = 181 then 924 else if r = 255 then 376
                       else if r = 454 then 453 else if r = 8560 then 8544 else r)\<rparr>"

section \<open>Notions for the proofs\<close>

text \<open>
  The keys for which \<open>Add\<close> allocates nothing; the aliases \<open>Add\<close> allocates; and the
  invariant of the tables that \<open>Add\<close> builds: keys and aliases are pairwise distinct, and
  every alias is one that \<open>Add\<close> allocates.
\<close>

definition sentinel :: "rune list \<Rightarrow> bool" where
  "sentinel path = (path = [] \<or> path = str ''.'' \<or> path = str ''/'')"

definition good_alias :: "unicode_tables \<Rightarrow> rune list \<Rightarrow> bool" where
  "good_alias U a = (a \<noteq> [] \<and> \<not> isKeyword a \<and> IsLetter U (hd a) \<and> (\<forall>r \<in> set a. \<not> invalidIdentifierChar r))"

definition wf_table :: "unicode_tables \<Rightarrow> Imports \<Rightarrow> bool" where
  "wf_table U imp = (distinct (map fst imp) \<and> distinct (map snd imp) \<and> (\<forall>a \<in> snd ` set imp. good_alias U a))"

text \<open>
  The state of the parser when every finished word is non-empty and every rune of a
  finished word, and of the word being built, satisfies \<open>P\<close>.
\<close>

definition parser_inv :: "(rune \<Rightarrow> bool) \<Rightarrow> parser \<Rightarrow> bool" where
  "parser_inv P p =
     ((\<forall>w \<in> set (words p). w \<noteq> [] \<and> (\<forall>r \<in> set w. P r)) \<and> (\<forall>r \<in> set (word p). P r))"

section \<open>Properties of \<open>Add\<close>\<close>

lemma IsLetter_x: "IsLetter U 120"
  by (simp add: IsLetter_def MaxLatin1_def pLl_def)

lemma not_keyword_x: "\<not> isKeyword (120 # a)"
  by (simp add: isKeyword_def go_keywords_def str_def)

lemma isValid_iff:
  "isValid U imp a = (a \<noteq> [] \<and> \<not> isKeyword a \<and> IsLetter U (hd a) \<and> a \<notin> snd ` set imp)"
  by (cases a) (force simp add: isValid_def list_all_iff)+

lemma isValid_x: "isValid U imp (120 # a) = (120 # a \<notin> snd ` set imp)"
  by (simp add: isValid_iff not_keyword_x IsLetter_x)

lemma xloop_valid: "isValid U imp (xloop U imp a)"
proof (induction U imp a rule: xloop.induct)
  case (1 U imp a)
  then show ?case by (subst xloop.simps) simp
qed

lemma xloop_shape: "\<exists>n. xloop U imp a = replicate n 120 @ a"
proof (induction U imp a rule: xloop.induct)
  case (1 U imp a)
  show ?case
  proof (cases "isValid U imp a")
    case True
    then have "xloop U imp a = replicate 0 120 @ a" by (subst xloop.simps) simp
    then show ?thesis by blast
  next
    case False
    with 1 obtain n where "xloop U imp (120 # a) = replicate n 120 @ 120 # a" by blast
    with False have "xloop U imp a = replicate (Suc n) 120 @ a"
      by (subst xloop.simps) (simp add: replicate_app_Cons_same)
    then show ?thesis by blast
  qed
qed

lemma newAlias_chars: "r \<in> set (newAlias es) \<Longrightarrow> \<not> invalidIdentifierChar r"
  by (simp add: newAlias_def)

lemma x_char: "\<not> invalidIdentifierChar 120"
  by (simp add: invalidIdentifierChar_def)

lemma tryElems_result:
  "tryElems U imp elems i a0 = (found, a) \<Longrightarrow>
     (found \<longrightarrow> isValid U imp a) \<and> (a = a0 \<and> \<not> found \<or> (\<exists>es. a = newAlias es))"
proof (induction U imp elems i a0 rule: tryElems.induct)
  case (1 U imp elems i a0)
  show ?case
  proof (cases "i \<le> length elems")
    case False
    with "1.prems" show ?thesis by (simp add: tryElems.simps)
  next
    case le: True
    let ?c = "newAlias (drop (length elems - i) elems)"
    show ?thesis
    proof (cases "isValid U imp ?c")
      case True
      with le "1.prems" have "found \<and> a = ?c"
        by (subst (asm) tryElems.simps) (auto simp add: Let_def)
      with True show ?thesis by blast
    next
      case False
      with le "1.prems" have "tryElems U imp elems (i + 1) ?c = (found, a)"
        by (subst (asm) tryElems.simps) (simp add: Let_def)
      with "1.IH" [OF le refl False] show ?thesis by blast
    qed
  qed
qed

lemma update_fresh: "map_of imp k = None \<Longrightarrow> AList.update k v imp = imp @ [(k, v)]"
  by (induction imp) (auto split: if_splits)

lemma Add_sentinel: "sentinel path \<Longrightarrow> Add U imp path = (imp, [])"
  by (auto simp add: Add_def sentinel_def)

lemma Add_bound: "\<not> sentinel path \<Longrightarrow> map_of imp path = Some a \<Longrightarrow> Add U imp path = (imp, a)"
  by (simp add: Add_def sentinel_def)

lemma Add_fresh:
  assumes "\<not> sentinel path" and "map_of imp path = None" and "Add U imp path = (imp', a)"
  shows "imp' = imp @ [(path, a)] \<and> isValid U imp a \<and> (\<forall>r \<in> set a. \<not> invalidIdentifierChar r)"
proof -
  obtain found c where t: "tryElems U imp (Split path 47) 1 [] = (found, c)"
    by (cases "tryElems U imp (Split path 47) 1 []") auto
  from tryElems_result [OF t]
  have v: "found \<longrightarrow> isValid U imp c" and c: "\<forall>r \<in> set c. \<not> invalidIdentifierChar r"
    by (auto dest: newAlias_chars)
  show ?thesis
  proof (cases found)
    case True
    with assms t have "imp' = AList.update path c imp" "a = c"
      by (auto simp add: Add_def sentinel_def Let_def)
    with True v c assms(2) show ?thesis by (simp add: update_fresh)
  next
    case False
    with assms t have r: "imp' = AList.update path a imp" "a = xloop U imp c"
      by (auto simp add: Add_def sentinel_def Let_def)
    obtain n where "a = replicate n 120 @ c" using r(2) xloop_shape by blast
    with c have "\<forall>r \<in> set a. \<not> invalidIdentifierChar r" by (auto simp add: x_char)
    with r assms(2) show ?thesis by (simp add: update_fresh xloop_valid)
  qed
qed

lemma Add_cases:
  assumes "Add U imp path = (imp', a)"
  obtains (Sentinel) "sentinel path" "imp' = imp" "a = []"
  | (Bound) "\<not> sentinel path" "map_of imp path = Some a" "imp' = imp"
  | (Fresh) "\<not> sentinel path" "map_of imp path = None" "imp' = imp @ [(path, a)]"
      "isValid U imp a" "\<forall>r \<in> set a. \<not> invalidIdentifierChar r"
proof (cases "sentinel path")
  case True
  from assms have "imp' = imp" "a = []" unfolding Add_sentinel [OF True] by simp_all
  with True show ?thesis by (rule Sentinel)
next
  case ns: False
  show ?thesis
  proof (cases "map_of imp path")
    case None
    from Add_fresh [OF ns None assms] ns None show ?thesis by (intro Fresh) simp_all
  next
    case (Some b)
    from assms have "imp' = imp" "a = b" unfolding Add_bound [OF ns Some] by simp_all
    with ns Some show ?thesis by (intro Bound) simp_all
  qed
qed

lemma Add_wf:
  assumes "wf_table U imp" and "Add U imp path = (imp', a)"
  shows "wf_table U imp'"
  using assms(2)
proof (cases rule: Add_cases)
  case Sentinel
  with assms show ?thesis by simp
next
  case Bound
  with assms show ?thesis by simp
next
  case Fresh
  from Fresh(2) have "path \<notin> fst ` set imp" by (simp add: map_of_eq_None_iff)
  moreover from Fresh(4) have "good_alias U a" "a \<notin> snd ` set imp"
    using Fresh(5) by (auto simp add: isValid_iff good_alias_def)
  ultimately show ?thesis using assms(1) Fresh(3) by (auto simp add: wf_table_def)
qed

lemma Add_frame:
  assumes "Add U imp path = (imp', a)" and "map_of imp k = Some v"
  shows "map_of imp' k = Some v"
  using assms(1)
proof (cases rule: Add_cases)
  case Fresh
  with assms(2) show ?thesis by (simp add: map_add_Some_iff)
qed (use assms in simp_all)

lemma Add_returns_binding:
  assumes "Add U imp path = (imp', a)" and "\<not> sentinel path"
  shows "map_of imp' path = Some a"
  using assms(1)
proof (cases rule: Add_cases)
  case Fresh
  then show ?thesis by (simp add: map_add_Some_iff)
qed (use assms in simp_all)

lemma AddAll_wf: "wf_table U imp \<Longrightarrow> AddAll U imp ks = (imp', as) \<Longrightarrow> wf_table U imp'"
proof (induction ks arbitrary: imp as)
  case Nil
  then show ?case by simp
next
  case (Cons k ks)
  then show ?case by (auto split: prod.splits dest: Add_wf)
qed

lemma wf_empty: "wf_table U []"
  by (simp add: wf_table_def)

lemma AddAll_frame: "AddAll U imp ks = (imp', as) \<Longrightarrow> map_of imp k = Some v \<Longrightarrow> map_of imp' k = Some v"
proof (induction ks arbitrary: imp as)
  case Nil
  then show ?case by simp
next
  case (Cons k' ks)
  then show ?case by (auto split: prod.splits dest: Add_frame)
qed

lemma Add_good:
  assumes "wf_table U imp" and "Add U imp path = (imp', a)"
  shows "a = [] \<or> good_alias U a"
  using assms(2)
proof (cases rule: Add_cases)
  case Sentinel
  then show ?thesis by simp
next
  case Bound
  then have "a \<in> snd ` set imp" by (force dest: map_of_SomeD)
  with assms(1) show ?thesis by (auto simp add: wf_table_def)
next
  case Fresh
  then show ?thesis by (simp add: isValid_iff good_alias_def)
qed

lemma AddAll_good:
  "wf_table U imp \<Longrightarrow> AddAll U imp ks = (imp', as) \<Longrightarrow> a \<in> set as \<Longrightarrow> a = [] \<or> good_alias U a"
proof (induction ks arbitrary: imp imp' as)
  case Nil
  then show ?case by simp
next
  case (Cons k ks)
  obtain imp1 a1 where s1: "Add U imp k = (imp1, a1)" by (cases "Add U imp k") auto
  obtain imp2 as2 where s2: "AddAll U imp1 ks = (imp2, as2)" by (cases "AddAll U imp1 ks") auto
  from Cons.prems(2) s1 s2 have eq: "as = a1 # as2" "imp' = imp2" by simp_all
  from Cons.prems(1) s1 have wf1: "wf_table U imp1" by (rule Add_wf)
  from Cons.prems(3) eq consider "a = a1" | "a \<in> set as2" by auto
  then show ?case
  proof cases
    case 1
    with Add_good [OF Cons.prems(1) s1] show ?thesis by simp
  next
    case 2
    with Cons.IH [OF wf1 s2] show ?thesis by simp
  qed
qed

lemma AddAll_bindings:
  "AddAll U imp ks = (imp', as) \<Longrightarrow> a \<in> set as \<Longrightarrow> a \<noteq> [] \<Longrightarrow> \<exists>k \<in> set ks. map_of imp' k = Some a"
proof (induction ks arbitrary: imp imp' as)
  case Nil
  then show ?case by simp
next
  case (Cons k ks)
  obtain imp1 a1 where s1: "Add U imp k = (imp1, a1)" by (cases "Add U imp k") auto
  obtain imp2 as2 where s2: "AddAll U imp1 ks = (imp2, as2)" by (cases "AddAll U imp1 ks") auto
  from Cons.prems(1) s1 s2 have eq: "as = a1 # as2" "imp' = imp2" by simp_all
  from Cons.prems(2) eq consider "a = a1" | "a \<in> set as2" by auto
  then show ?case
  proof cases
    case 1
    with Cons.prems(3) s1 have "\<not> sentinel k" by (auto simp add: Add_sentinel)
    with s1 have "map_of imp1 k = Some a1" by (rule Add_returns_binding)
    with s2 have "map_of imp2 k = Some a1" by (rule AddAll_frame)
    with 1 eq show ?thesis by simp
  next
    case 2
    with Cons.IH [OF s2 _ Cons.prems(3)] eq show ?thesis by auto
  qed
qed

lemma wf_inj: "wf_table U imp \<Longrightarrow> map_of imp k1 = Some a \<Longrightarrow> map_of imp k2 = Some a \<Longrightarrow> k1 = k2"
proof -
  assume wf: "wf_table U imp" and 1: "map_of imp k1 = Some a" and 2: "map_of imp k2 = Some a"
  from 1 2 have "(k1, a) \<in> set imp" "(k2, a) \<in> set imp" by (auto dest: map_of_SomeD)
  moreover from wf have "distinct (map snd imp)" by (simp add: wf_table_def)
  ultimately show ?thesis by (metis eq_key_imp_eq_value distinct_map inj_onD snd_conv prod.inject)
qed

lemma AddAll_distinct:
  "wf_table U imp \<Longrightarrow> distinct ks \<Longrightarrow> AddAll U imp ks = (imp', as) \<Longrightarrow> distinct (filter (\<lambda>a. a \<noteq> []) as)"
proof (induction ks arbitrary: imp imp' as)
  case Nil
  then show ?case by simp
next
  case (Cons k ks)
  obtain imp1 a1 where s1: "Add U imp k = (imp1, a1)" by (cases "Add U imp k") auto
  obtain imp2 as2 where s2: "AddAll U imp1 ks = (imp2, as2)" by (cases "AddAll U imp1 ks") auto
  from Cons.prems(3) s1 s2 have eq: "as = a1 # as2" "imp' = imp2" by simp_all
  from Cons.prems(1) s1 have wf1: "wf_table U imp1" by (rule Add_wf)
  from wf1 s2 have wf2: "wf_table U imp2" by (rule AddAll_wf)
  from Cons.prems(2) have d: "distinct ks" "k \<notin> set ks" by simp_all
  have rest: "distinct (filter (\<lambda>a. a \<noteq> []) as2)" by (rule Cons.IH [OF wf1 d(1) s2])
  have "a1 \<notin> set as2" if ne: "a1 \<noteq> []"
  proof
    assume "a1 \<in> set as2"
    with s2 ne obtain k' where k': "k' \<in> set ks" "map_of imp2 k' = Some a1"
      using AddAll_bindings by blast
    from ne s1 have "\<not> sentinel k" by (auto simp add: Add_sentinel)
    with s1 have "map_of imp1 k = Some a1" by (rule Add_returns_binding)
    with s2 have "map_of imp2 k = Some a1" by (rule AddAll_frame)
    with wf2 k'(2) have "k' = k" by (rule wf_inj)
    with k'(1) d(2) show False by simp
  qed
  with rest eq show ?case by simp
qed

section \<open>Evaluation\<close>

text \<open>The equations that evaluate the model on a concrete input.\<close>

lemmas unicode_eval = MaxLatin1_def MaxASCII_def pLu_def pLl_def pLo_def pN_def IsUpper_def IsTitle_def
  IsLetter_def IsNumber_def IsSpace_def ToLower_def ToTitle_def unicode_excerpt_def

lemmas Add_eval = str_def Add_def isValid_def isKeyword_def go_keywords_def newAlias_def
  invalidIdentifierChar_def tryElems.simps xloop.simps Let_def

lemmas parse_eval = str_def parse_def TrimSpace_def parse_step_def isUpper_def isLower_def shift_def
  write_rune_def camel_def kebab_def natural_def packge_def pascal_def snake_def title_def
  NewIdentifier_def Let_def

section \<open>The claims about \<open>Add\<close>\<close>

text \<open>
  Claim C5. \<open>Add\<close> on the empty path, on \<open>.\<close> and on \<open>/\<close> returns the empty string and
  leaves the table as it was, whatever the table.
\<close>

theorem Add_no_alias:
  "Add U imp [] = (imp, []) \<and> Add U imp (str ''.'') = (imp, []) \<and> Add U imp (str ''/'') = (imp, [])"
  by (simp add: Add_def)

text \<open>
  Claim C1. After any sequence of calls of \<open>Add\<close> on the empty table, no two keys of the
  table have the same alias; and when the keys of the calls are pairwise distinct, the
  non-empty aliases returned are pairwise distinct.
\<close>

theorem Add_aliases_unique:
  assumes "AddAll U [] ks = (imp, as)"
  shows "(\<forall>k1 k2 a. map_of imp k1 = Some a \<and> map_of imp k2 = Some a \<longrightarrow> k1 = k2) \<and>
         (distinct ks \<longrightarrow> distinct (filter (\<lambda>a. a \<noteq> []) as))"
proof -
  from wf_empty assms have "wf_table U imp" by (rule AddAll_wf)
  then have "\<forall>k1 k2 a. map_of imp k1 = Some a \<and> map_of imp k2 = Some a \<longrightarrow> k1 = k2"
    by (blast intro: wf_inj)
  moreover have "distinct ks \<longrightarrow> distinct (filter (\<lambda>a. a \<noteq> []) as)"
    using AddAll_distinct [OF wf_empty _ assms] by blast
  ultimately show ?thesis by blast
qed

theorem Add_aliases_unique_witness:
  "AddAll unicode_excerpt [] (map str [''encoding/json'', ''encodingjson'', ''json'', ''/'', ''x/go''])
     = ([(str ''encoding/json'', str ''json''), (str ''encodingjson'', str ''encodingjson''),
         (str ''json'', str ''xjson''), (str ''x/go'', str ''xgo'')],
        [str ''json'', str ''encodingjson'', str ''xjson'', [], str ''xgo'']) \<and>
   distinct (map str [''encoding/json'', ''encodingjson'', ''json'', ''/'', ''x/go'']) \<and>
   distinct (filter (\<lambda>a. a \<noteq> []) [str ''json'', str ''encodingjson'', str ''xjson'', [], str ''xgo''])"
proof -
  have run: "AddAll unicode_excerpt [] (map str [''encoding/json'', ''encodingjson'', ''json'', ''/'', ''x/go''])
     = ([(str ''encoding/json'', str ''json''), (str ''encodingjson'', str ''encodingjson''),
         (str ''json'', str ''xjson''), (str ''x/go'', str ''xgo'')],
        [str ''json'', str ''encodingjson'', str ''xjson'', [], str ''xgo''])"
    by (simp add: Add_eval unicode_eval)
  have keys: "distinct (map str [''encoding/json'', ''encodingjson'', ''json'', ''/'', ''x/go''])"
    by (simp add: str_def)
  from Add_aliases_unique [OF run] keys run show ?thesis by blast
qed

text \<open>
  Claim C9. A call of \<open>Add\<close>, on any table and any path, keeps every binding of the table
  as it was, changes the binding of no other key, and either leaves the table alone or puts
  one binding for the path, which had none, at its end.
\<close>

theorem Add_frame_grows:
  assumes "Add U imp path = (imp', a)"
  shows "(\<forall>k v. map_of imp k = Some v \<longrightarrow> map_of imp' k = Some v) \<and>
         (\<forall>k. k \<noteq> path \<longrightarrow> map_of imp' k = map_of imp k) \<and>
         (imp' = imp \<or> (map_of imp path = None \<and> imp' = imp @ [(path, a)])) \<and>
         length imp' \<le> length imp + 1"
  using assms
proof (cases rule: Add_cases)
  case Sentinel
  then show ?thesis by simp
next
  case Bound
  then show ?thesis by simp
next
  case Fresh
  then show ?thesis by (auto simp add: map_add_Some_iff map_add_def split: option.splits)
qed

theorem Add_frame_grows_witness:
  "Add unicode_excerpt [(str ''encoding/json'', str ''json'')] (str ''my/json'')
     = ([(str ''encoding/json'', str ''json''), (str ''my/json'', str ''myjson'')], str ''myjson'') \<and>
   map_of [(str ''encoding/json'', str ''json''), (str ''my/json'', str ''myjson'')] (str ''encoding/json'')
     = Some (str ''json'') \<and>
   map_of [(str ''encoding/json'', str ''json'')] (str ''my/json'') = None"
proof -
  have run: "Add unicode_excerpt [(str ''encoding/json'', str ''json'')] (str ''my/json'')
     = ([(str ''encoding/json'', str ''json''), (str ''my/json'', str ''myjson'')], str ''myjson'')"
    by (simp add: Add_eval unicode_eval)
  have old: "map_of [(str ''encoding/json'', str ''json'')] (str ''encoding/json'') = Some (str ''json'')"
    by simp
  have "str ''encoding/json'' \<noteq> str ''my/json''" by (simp add: str_def)
  with Add_frame_grows [OF run] old run show ?thesis by auto
qed

text \<open>
  Claim C4. Once \<open>Add\<close> has returned an alias for a key, it returns the same alias for that
  key after any further calls of \<open>Add\<close>, and leaves the table alone then; repeated at once,
  it leaves the number of entries as it was.
\<close>

theorem Add_idempotent:
  assumes "Add U imp k = (imp1, a)" and "AddAll U imp1 ks = (imp2, as)"
  shows "Add U imp2 k = (imp2, a) \<and> Add U imp1 k = (imp1, a) \<and>
         length (fst (Add U imp1 k)) = length imp1"
proof -
  have again: "Add U imp' k = (imp', a)" if "\<And>v. map_of imp1 k = Some v \<Longrightarrow> map_of imp' k = Some v" for imp'
  proof (cases "sentinel k")
    case True
    with assms(1) show ?thesis by (simp add: Add_sentinel)
  next
    case False
    with assms(1) have "map_of imp1 k = Some a" by (rule Add_returns_binding)
    then have "map_of imp' k = Some a" by (rule that)
    with False show ?thesis by (rule Add_bound)
  qed
  have "Add U imp2 k = (imp2, a)" using AddAll_frame [OF assms(2)] by (rule again)
  moreover have "Add U imp1 k = (imp1, a)" by (rule again)
  ultimately show ?thesis by simp
qed

theorem Add_idempotent_witness:
  "Add unicode_excerpt [] (str ''encoding/json'') = ([(str ''encoding/json'', str ''json'')], str ''json'') \<and>
   AddAll unicode_excerpt [(str ''encoding/json'', str ''json'')] [str ''json'', str ''go'']
     = ([(str ''encoding/json'', str ''json''), (str ''json'', str ''xjson''), (str ''go'', str ''xgo'')],
        [str ''xjson'', str ''xgo'']) \<and>
   Add unicode_excerpt
     [(str ''encoding/json'', str ''json''), (str ''json'', str ''xjson''), (str ''go'', str ''xgo'')]
     (str ''encoding/json'')
     = ([(str ''encoding/json'', str ''json''), (str ''json'', str ''xjson''), (str ''go'', str ''xgo'')],
        str ''json'')"
proof -
  have first: "Add unicode_excerpt [] (str ''encoding/json'')
      = ([(str ''encoding/json'', str ''json'')], str ''json'')"
    by (simp add: Add_eval unicode_eval)
  have more: "AddAll unicode_excerpt [(str ''encoding/json'', str ''json'')] [str ''json'', str ''go'']
     = ([(str ''encoding/json'', str ''json''), (str ''json'', str ''xjson''), (str ''go'', str ''xgo'')],
        [str ''xjson'', str ''xgo''])"
    by (simp add: Add_eval unicode_eval)
  from Add_idempotent [OF first more] first more show ?thesis by blast
qed

text \<open>
  Claim C2. Every non-empty alias that \<open>Add\<close> returns in a sequence of calls on the empty
  table starts with a letter, is made of letters, digits and underscores, and is no keyword.
\<close>

theorem Add_alias_valid:
  assumes "AddAll U [] ks = (imp, as)" and "a \<in> set as" and "a \<noteq> []"
  shows "IsLetter U (hd a) \<and>
         (\<forall>r \<in> set a. IsLetter U r \<or> (48 \<le> r \<and> r \<le> 57) \<or> r = 95) \<and>
         \<not> isKeyword a"
proof -
  from AddAll_good [OF wf_empty assms(1,2)] assms(3) have g: "good_alias U a" by simp
  have "IsLetter U r \<or> (48 \<le> r \<and> r \<le> 57) \<or> r = 95" if "\<not> invalidIdentifierChar r" for r
    using that by (auto simp add: invalidIdentifierChar_def IsLetter_def MaxLatin1_def pLu_def pLl_def)
  with g show ?thesis by (simp add: good_alias_def)
qed

theorem Add_alias_valid_witness:
  "AddAll unicode_excerpt [] (map str [''go'', ''a-b/c.d'', ''1/2''])
     = ([(str ''go'', str ''xgo''), (str ''a-b/c.d'', str ''cd''), (str ''1/2'', str ''x12'')],
        [str ''xgo'', str ''cd'', str ''x12'']) \<and>
   IsLetter unicode_excerpt (hd (str ''x12'')) \<and> \<not> isKeyword (str ''x12'')"
proof -
  have run: "AddAll unicode_excerpt [] (map str [''go'', ''a-b/c.d'', ''1/2''])
     = ([(str ''go'', str ''xgo''), (str ''a-b/c.d'', str ''cd''), (str ''1/2'', str ''x12'')],
        [str ''xgo'', str ''cd'', str ''x12''])"
    by (simp add: Add_eval unicode_eval)
  have "str ''x12'' \<in> set [str ''xgo'', str ''cd'', str ''x12'']" "str ''x12'' \<noteq> []"
    by (simp_all add: str_def)
  from Add_alias_valid [OF run this] run show ?thesis by blast
qed

lemma Join_empty_sep: "Join es [] = concat es"
  by (induction es "[] :: rune list" rule: Join.induct) simp_all

lemma newAlias_append: "newAlias (es1 @ es2) = newAlias es1 @ newAlias es2"
  by (simp add: newAlias_def Join_empty_sep)

lemma newAlias_non_ascii: "\<forall>r \<in> set e. MaxASCII < r \<Longrightarrow> newAlias [e] = []"
  by (auto simp add: newAlias_def MaxASCII_def invalidIdentifierChar_def filter_empty_conv)

text \<open>
  Claim C10. Every alias that \<open>Add\<close> returns in a sequence of calls on the empty table is
  made of ASCII letters, ASCII digits and underscores only; and a path element all of
  whose characters lie outside ASCII gives the empty candidate and adds nothing to the
  candidate of the elements around it.
\<close>

theorem Add_alias_ascii:
  assumes "AddAll U [] ks = (imp, as)" and "a \<in> set as"
  shows "(\<forall>r \<in> set a. r \<le> MaxASCII \<and>
            ((48 \<le> r \<and> r \<le> 57) \<or> (65 \<le> r \<and> r \<le> 90) \<or> (97 \<le> r \<and> r \<le> 122) \<or> r = 95)) \<and>
         (\<forall>es1 e es2. (\<forall>r \<in> set e. MaxASCII < r) \<longrightarrow>
            newAlias [e] = [] \<and> newAlias (es1 @ e # es2) = newAlias (es1 @ es2))"
proof -
  have chars: "\<forall>r \<in> set a. \<not> invalidIdentifierChar r"
    using AddAll_good [OF wf_empty assms] by (auto simp add: good_alias_def)
  have "r \<le> MaxASCII \<and>
      ((48 \<le> r \<and> r \<le> 57) \<or> (65 \<le> r \<and> r \<le> 90) \<or> (97 \<le> r \<and> r \<le> 122) \<or> r = 95)"
    if "\<not> invalidIdentifierChar r" for r
    using that by (auto simp add: invalidIdentifierChar_def MaxASCII_def)
  with chars have 1: "\<forall>r \<in> set a. r \<le> MaxASCII \<and>
      ((48 \<le> r \<and> r \<le> 57) \<or> (65 \<le> r \<and> r \<le> 90) \<or> (97 \<le> r \<and> r \<le> 122) \<or> r = 95)"
    by blast
  have 2: "newAlias [e] = [] \<and> newAlias (es1 @ e # es2) = newAlias (es1 @ es2)"
    if "\<forall>r \<in> set e. MaxASCII < r" for es1 e es2
  proof -
    from that have none: "newAlias [e] = []" by (rule newAlias_non_ascii)
    have "newAlias (es1 @ e # es2) = newAlias es1 @ newAlias [e] @ newAlias es2"
      using newAlias_append [of es1 "[e] @ es2"] newAlias_append [of "[e]" es2] by simp
    with none show ?thesis by (simp add: newAlias_append)
  qed
  from 1 2 show ?thesis by blast
qed

theorem Add_alias_ascii_witness:
  "AddAll unicode_excerpt [] [str ''caf'' @ [233] @ str ''/'' @ [233, 8450]]
     = ([(str ''caf'' @ [233] @ str ''/'' @ [233, 8450], str ''caf'')], [str ''caf'']) \<and>
   list_all (\<lambda>r. MaxASCII < r) [233, 8450] \<and>
   newAlias [[233, 8450]] = [] \<and>
   newAlias ([str ''caf'' @ [233]] @ [233, 8450] # []) = newAlias ([str ''caf'' @ [233]] @ []) \<and>
   list_all (\<lambda>r. r \<le> MaxASCII) (str ''caf'')"
proof -
  have run: "AddAll unicode_excerpt [] [str ''caf'' @ [233] @ str ''/'' @ [233, 8450]]
     = ([(str ''caf'' @ [233] @ str ''/'' @ [233, 8450], str ''caf'')], [str ''caf''])"
    by (simp add: Add_eval unicode_eval)
  have elem: "\<forall>r \<in> set [233, 8450]. MaxASCII < r" by (simp add: MaxASCII_def)
  have "str ''caf'' \<in> set [str ''caf'']" by simp
  from Add_alias_ascii [OF run this] elem run show ?thesis unfolding list_all_iff by blast
qed

lemma xloop_iterations:
  "\<exists>n. xloop U imp a = replicate n 120 @ a \<and> (\<forall>j < n. \<not> isValid U imp (replicate j 120 @ a))"
proof (induction U imp a rule: xloop.induct)
  case (1 U imp a)
  show ?case
  proof (cases "isValid U imp a")
    case True
    then have "xloop U imp a = replicate 0 120 @ a" by (subst xloop.simps) simp
    then show ?thesis by blast
  next
    case False
    with 1 obtain n where n: "xloop U imp (120 # a) = replicate n 120 @ 120 # a"
      "\<forall>j < n. \<not> isValid U imp (replicate j 120 @ 120 # a)" by blast
    from False n(1) have eq: "xloop U imp a = replicate (Suc n) 120 @ a"
      by (subst xloop.simps) (simp add: replicate_app_Cons_same)
    have "\<not> isValid U imp (replicate j 120 @ a)" if "j < Suc n" for j
    proof (cases j)
      case 0
      with False show ?thesis by simp
    next
      case (Suc i)
      with that n(2) have "\<not> isValid U imp (replicate i 120 @ 120 # a)" by simp
      with Suc show ?thesis by (simp add: replicate_app_Cons_same)
    qed
    with eq show ?thesis by blast
  qed
qed

lemma xloop_bound:
  assumes "\<forall>j < n. \<not> isValid U imp (replicate j 120 @ a)"
  shows "n \<le> length imp + 1"
proof -
  let ?f = "\<lambda>j. replicate (Suc j) 120 @ a"
  have "?f ` {..<n - 1} \<subseteq> snd ` set imp"
  proof
    fix c assume "c \<in> ?f ` {..<n - 1}"
    then obtain j where j: "j < n - 1" "c = replicate (Suc j) 120 @ a" by auto
    then have "Suc j < n" by simp
    with assms have "\<not> isValid U imp (replicate (Suc j) 120 @ a)" by blast
    then have "120 # (replicate j 120 @ a) \<in> snd ` set imp" by (simp add: isValid_x)
    with j(2) show "c \<in> snd ` set imp" by simp
  qed
  then have "card (?f ` {..<n - 1}) \<le> card (snd ` set imp)" by (simp add: card_mono)
  moreover have "inj_on ?f {..<n - 1}"
  proof (rule inj_onI)
    fix i j assume "?f i = ?f j"
    then have "length (?f i) = length (?f j)" by (rule arg_cong)
    then show "i = j" by simp
  qed
  then have "card (?f ` {..<n - 1}) = n - 1" by (simp add: card_image)
  moreover have "card (snd ` set imp) \<le> length imp"
    by (metis card_image_le card_length le_trans List.finite_set)
  ultimately show ?thesis by simp
qed

text \<open>
  Claim C3. Both loops of \<open>Add\<close> are total functions, by their termination proofs. The
  loop that prepends \<open>x\<close> stops after at most one iteration more than the table has
  entries, at a valid alias; and \<open>Add\<close> on a path without a binding returns a valid alias
  and binds it.
\<close>

theorem Add_terminates:
  "(\<exists>n \<le> length imp + 1. xloop U imp alias = replicate n 120 @ alias \<and>
       isValid U imp (replicate n 120 @ alias)) \<and>
   (path \<noteq> [] \<and> path \<noteq> str ''.'' \<and> path \<noteq> str ''/'' \<and> map_of imp path = None \<longrightarrow>
       isValid U imp (snd (Add U imp path)) \<and>
       fst (Add U imp path) = imp @ [(path, snd (Add U imp path))])"
proof -
  obtain n where n: "xloop U imp alias = replicate n 120 @ alias"
    "\<forall>j < n. \<not> isValid U imp (replicate j 120 @ alias)"
    using xloop_iterations by blast
  from n(2) have "n \<le> length imp + 1" by (rule xloop_bound)
  moreover from n(1) have "isValid U imp (replicate n 120 @ alias)"
    using xloop_valid [of U imp "alias"] by simp
  ultimately have 1: "\<exists>n \<le> length imp + 1. xloop U imp alias = replicate n 120 @ alias \<and>
       isValid U imp (replicate n 120 @ alias)" using n(1) by blast
  have 2: "isValid U imp (snd (Add U imp path)) \<and>
       fst (Add U imp path) = imp @ [(path, snd (Add U imp path))]"
    if "path \<noteq> [] \<and> path \<noteq> str ''.'' \<and> path \<noteq> str ''/'' \<and> map_of imp path = None"
  proof -
    from that have "\<not> sentinel path" "map_of imp path = None" by (simp_all add: sentinel_def)
    from Add_fresh [OF this, of U "fst (Add U imp path)" "snd (Add U imp path)"]
    show ?thesis by simp
  qed
  from 1 2 show ?thesis by blast
qed

theorem Add_terminates_witness:
  "xloop unicode_excerpt [(str ''a'', str ''xgo''), (str ''b'', str ''xxgo'')] (str ''go'') = str ''xxxgo'' \<and>
   str ''x/go'' \<noteq> [] \<and> str ''x/go'' \<noteq> str ''.'' \<and> str ''x/go'' \<noteq> str ''/'' \<and>
   map_of [(str ''a'', str ''xgo''), (str ''b'', str ''xxgo'')] (str ''x/go'') = None \<and>
   Add unicode_excerpt [(str ''a'', str ''xgo''), (str ''b'', str ''xxgo'')] (str ''x/go'')
     = ([(str ''a'', str ''xgo''), (str ''b'', str ''xxgo''), (str ''x/go'', str ''xxxgo'')], str ''xxxgo'') \<and>
   isValid unicode_excerpt [(str ''a'', str ''xgo''), (str ''b'', str ''xxgo'')] (str ''xxxgo'')"
proof -
  let ?imp = "[(str ''a'', str ''xgo''), (str ''b'', str ''xxgo'')]"
  have loop: "xloop unicode_excerpt ?imp (str ''go'') = str ''xxxgo''"
    by (simp add: Add_eval unicode_eval)
  have run: "Add unicode_excerpt ?imp (str ''x/go'')
     = (?imp @ [(str ''x/go'', str ''xxxgo'')], str ''xxxgo'')"
    by (simp add: Add_eval unicode_eval)
  have key: "str ''x/go'' \<noteq> [] \<and> str ''x/go'' \<noteq> str ''.'' \<and> str ''x/go'' \<noteq> str ''/'' \<and>
      map_of ?imp (str ''x/go'') = None"
    by (simp add: str_def)
  from Add_terminates [of ?imp unicode_excerpt "str ''go''" "str ''x/go''"] key
  have "isValid unicode_excerpt ?imp (snd (Add unicode_excerpt ?imp (str ''x/go'')))"
    by blast
  then have "isValid unicode_excerpt ?imp (str ''xxxgo'')"
    unfolding run by simp
  with loop run key show ?thesis by simp
qed

section \<open>The claims about \<open>NewIdentifier\<close>\<close>

text \<open>
  Claim C6. \<open>UserID\<close> is parsed into the words \<open>user\<close>, \<open>i\<close>, \<open>d\<close> and its camel case is
  \<open>userID\<close>; \<open>user_id\<close> is parsed into \<open>user\<close>, \<open>id\<close>, with snake case \<open>user_id\<close>,
  pascal case \<open>UserId\<close> and kebab case \<open>user-id\<close>.
\<close>

theorem NewIdentifier_fixtures:
  "parse U (str ''UserID'') = [str ''user'', str ''i'', str ''d''] \<and>
   camel U (parse U (str ''UserID'')) = str ''userID'' \<and>
   Camel (NewIdentifier U (str ''UserID'')) = str ''userID'' \<and>
   parse U (str ''user_id'') = [str ''user'', str ''id''] \<and>
   Snake (NewIdentifier U (str ''user_id'')) = str ''user_id'' \<and>
   Pascal (NewIdentifier U (str ''user_id'')) = str ''UserId'' \<and>
   Kebab (NewIdentifier U (str ''user_id'')) = str ''user-id''"
proof -
  have 1: "parse U (str ''UserID'') = [str ''user'', str ''i'', str ''d'']"
    by (simp add: parse_eval MaxLatin1_def MaxASCII_def pLu_def pLl_def pLo_def pN_def IsUpper_def
        IsTitle_def IsLetter_def IsNumber_def IsSpace_def ToLower_def)
  have 2: "parse U (str ''user_id'') = [str ''user'', str ''id'']"
    by (simp add: parse_eval MaxLatin1_def MaxASCII_def pLu_def pLl_def pLo_def pN_def IsUpper_def
        IsTitle_def IsLetter_def IsNumber_def IsSpace_def ToLower_def)
  have 3: "camel U [str ''user'', str ''i'', str ''d''] = str ''userID''"
    by (simp add: camel_def title_def ToTitle_def MaxASCII_def str_def)
  have 4: "snake [str ''user'', str ''id''] = str ''user_id''"
    "pascal U [str ''user'', str ''id''] = str ''UserId''"
    "kebab [str ''user'', str ''id''] = str ''user-id''"
    by (simp_all add: snake_def pascal_def kebab_def title_def ToTitle_def MaxASCII_def str_def)
  from 1 2 3 4 show ?thesis by (simp add: NewIdentifier_def Let_def)
qed

lemma TrimSpace_all_space:
  assumes "\<forall>r \<in> set s. IsSpace U r"
  shows "TrimSpace U s = []"
  using assms by (auto simp add: TrimSpace_def dest: set_dropWhileD)

text \<open>
  Claim C8. An input that is empty or made of white space only is parsed into no word, and
  all six renderings of its identifier are empty.
\<close>

theorem NewIdentifier_blank:
  assumes "\<forall>r \<in> set s. IsSpace U r"
  shows "parse U s = [] \<and>
         NewIdentifier U s =
           \<lparr>Camel = [], Kebab = [], Natural = [], Package = [], Pascal = [], Snake = [], Source = s\<rparr>"
proof -
  from assms have "parse U s = []" by (simp add: parse_def TrimSpace_all_space)
  then show ?thesis
    by (simp add: NewIdentifier_def Let_def camel_def kebab_def natural_def packge_def pascal_def
        snake_def)
qed

theorem NewIdentifier_blank_witness:
  "list_all (IsSpace unicode_excerpt) [32, 9, 10, 160, 8195] \<and>
   parse unicode_excerpt [32, 9, 10, 160, 8195] = [] \<and>
   Camel (NewIdentifier unicode_excerpt [32, 9, 10, 160, 8195]) = [] \<and>
   NewIdentifier unicode_excerpt [] =
     \<lparr>Camel = [], Kebab = [], Natural = [], Package = [], Pascal = [], Snake = [], Source = []\<rparr>"
proof -
  have blank: "\<forall>r \<in> set [32, 9, 10, 160, 8195]. IsSpace unicode_excerpt r"
    by (simp add: unicode_eval)
  from NewIdentifier_blank [OF blank] NewIdentifier_blank [of "[]" unicode_excerpt] blank
  show ?thesis unfolding list_all_iff by simp
qed

lemma shift_inv: "parser_inv P p \<Longrightarrow> parser_inv P (shift p)"
  by (auto simp add: parser_inv_def shift_def)

lemma write_inv: "parser_inv P p \<Longrightarrow> P r \<Longrightarrow> parser_inv P (write_rune p r)"
  by (auto simp add: parser_inv_def write_rune_def)

lemma parse_step_inv:
  assumes "parser_inv P p"
    and "isUpper U c \<Longrightarrow> isLower U (ToLower U c) \<Longrightarrow> P (ToLower U c)"
    and "\<not> isUpper U c \<Longrightarrow> isLower U c \<Longrightarrow> P c"
  shows "parser_inv P (parse_step U p c)"
  using assms by (auto simp add: parse_step_def shift_inv write_inv)

lemma foldl_parse_step_inv:
  assumes "\<And>c. c \<in> set s \<Longrightarrow> isUpper U c \<Longrightarrow> isLower U (ToLower U c) \<Longrightarrow> P (ToLower U c)"
    and "\<And>c. c \<in> set s \<Longrightarrow> \<not> isUpper U c \<Longrightarrow> isLower U c \<Longrightarrow> P c"
  shows "parser_inv P p \<Longrightarrow> parser_inv P (foldl (parse_step U) p s)"
  using assms
proof (induction s arbitrary: p)
  case Nil
  then show ?case by simp
next
  case (Cons c s)
  from Cons.prems have "parser_inv P (parse_step U p c)" by (intro parse_step_inv) simp_all
  with Cons show ?case by simp
qed

lemma set_TrimSpace: "set (TrimSpace U s) \<subseteq> set s"
proof
  fix r assume "r \<in> set (TrimSpace U s)"
  then have "r \<in> set (dropWhile (IsSpace U) (rev (dropWhile (IsSpace U) s)))"
    by (simp add: TrimSpace_def)
  then have "r \<in> set (rev (dropWhile (IsSpace U) s))" by (rule set_dropWhileD)
  then have "r \<in> set (dropWhile (IsSpace U) s)" by simp
  then show "r \<in> set s" by (rule set_dropWhileD)
qed

lemma parse_words:
  assumes up: "\<And>c. c \<in> set s \<Longrightarrow> isUpper U c \<Longrightarrow> isLower U (ToLower U c) \<Longrightarrow> P (ToLower U c)"
    and lo: "\<And>c. c \<in> set s \<Longrightarrow> \<not> isUpper U c \<Longrightarrow> isLower U c \<Longrightarrow> P c"
    and w: "w \<in> set (parse U s)"
  shows "w \<noteq> [] \<and> (\<forall>r \<in> set w. P r)"
proof -
  let ?s = "TrimSpace U s"
  let ?p = "shift (foldl (parse_step U) \<lparr>word = [], words = []\<rparr> ?s)"
  from w have mem: "w \<in> set (words ?p)" by (simp add: parse_def Let_def split: if_splits)
  have "parser_inv P \<lparr>word = [], words = []\<rparr>" by (simp add: parser_inv_def)
  then have "parser_inv P (foldl (parse_step U) \<lparr>word = [], words = []\<rparr> ?s)"
    using set_TrimSpace [of U s] by (intro foldl_parse_step_inv up lo) auto
  then have "parser_inv P ?p" by (rule shift_inv)
  with mem show ?thesis by (simp add: parser_inv_def)
qed

text \<open>
  Claim C7, as stated, fails: U+2102 is an upper-case letter that \<open>ToLower\<close> leaves as it
  is, so the word parsed from it holds an upper-case character; and U+2160 is a number, not
  an upper-case letter, whose lower case is another rune, so the word parsed from it changes
  when it is lower-cased.
\<close>

theorem parse_words_lowercase_counterexample:
  "parse unicode_excerpt [8450] = [[8450]] \<and> isUpper unicode_excerpt 8450 \<and>
   parse unicode_excerpt [8544] = [[8544]] \<and> ToLower unicode_excerpt 8544 = 8560"
  by (simp add: parse_eval unicode_eval)

text \<open>
  Claim C7, amended. Every word that \<open>parse\<close> returns is non-empty and made of letters and
  numbers only, so it holds no space, underscore or hyphen. Each of its runes is a rune of
  the input that is not upper case, or the \<open>ToLower\<close> of an upper-case rune of the input;
  when the input is ASCII, no rune of a word is upper case and \<open>ToLower\<close> leaves each as
  it is.
\<close>

theorem parse_words_invariant:
  assumes "w \<in> set (parse U s)"
  shows "w \<noteq> [] \<and>
         (\<forall>r \<in> set w.
            (IsLetter U r \<or> IsNumber U r) \<and> r \<noteq> 32 \<and> r \<noteq> 95 \<and> r \<noteq> 45 \<and>
            ((r \<in> set s \<and> \<not> isUpper U r) \<or> (\<exists>c \<in> set s. isUpper U c \<and> r = ToLower U c)) \<and>
            ((\<forall>c \<in> set s. c \<le> MaxASCII) \<longrightarrow> \<not> isUpper U r \<and> ToLower U r = r))"
proof -
  let ?src = "\<lambda>r. (r \<in> set s \<and> \<not> isUpper U r) \<or> (\<exists>c \<in> set s. isUpper U c \<and> r = ToLower U c)"
  from assms have base: "w \<noteq> [] \<and> (\<forall>r \<in> set w. isLower U r \<and> ?src r)"
    by (intro parse_words [where s = s and U = U]) auto
  have sep: "r \<noteq> 32 \<and> r \<noteq> 95 \<and> r \<noteq> 45" if "isLower U r" for r
    using that
    by (auto simp add: isLower_def IsLetter_def IsNumber_def MaxLatin1_def pLu_def pLl_def pLo_def pN_def)
  have ascii: "\<not> isUpper U r \<and> ToLower U r = r" if "?src r" and "\<forall>c \<in> set s. c \<le> MaxASCII" for r
    using that
    by (auto simp add: isUpper_def IsUpper_def IsTitle_def ToLower_def MaxASCII_def MaxLatin1_def pLu_def)
  from base sep ascii show ?thesis unfolding isLower_def by blast
qed

theorem parse_words_invariant_witness:
  "str ''user'' \<in> set (parse unicode_excerpt (str ''UserID'')) \<and>
   list_all (\<lambda>c. c \<le> MaxASCII) (str ''UserID'') \<and>
   list_all (\<lambda>r. \<not> isUpper unicode_excerpt r \<and> ToLower unicode_excerpt r = r) (str ''user'')"
proof -
  have w: "str ''user'' \<in> set (parse unicode_excerpt (str ''UserID''))"
    by (simp add: parse_eval unicode_eval)
  have a: "\<forall>c \<in> set (str ''UserID''). c \<le> MaxASCII"
    by (simp add: str_def MaxASCII_def)
  from parse_words_invariant [OF w] a w show ?thesis unfolding list_all_iff by blast
qed

end
